theory Spec2Isabelle
  imports Complex_Main
begin

section \<open>Data model\<close>

text \<open>
  The module \<open>tntorch/optimize.py\<close> works on tensor-network objects of the library. Of a
  network \<open>t\<close> it reads \<open>t.cores\<close>, \<open>t.Us\<close> and \<open>t.ndim\<close>; of a core or factor it reads
  \<open>requires_grad\<close> and \<open>numel()\<close>.

  Modelled from the spec: the tensor and tensor-network classes are not part of the
  module. The specification describes a network as an ordered sequence of cores and an
  ordered sequence of optional factor matrices, one per dimension, each with a
  learnability flag and an element count; these attributes are the fields of the two
  records. \<open>ident\<close> stands for the identity of the Python object: two entries with the
  same \<open>ident\<close> are the same object.
\<close>

record node =
  ident :: nat
  requires_grad :: bool
  numel :: nat

record tnet =
  cores :: "node list"
  Us :: "node option list"
  ndim :: nat

text \<open>
  Every raise of the module is a value of \<open>error\<close>. \<open>ZeroDenominator\<close> is the evaluation
  of \<open>-delta_loss / losses[-1]\<close> with a latest loss of zero: Python floats raise there and
  torch scalars give an infinity or a NaN; real arithmetic has neither, so the model stops
  with this outcome instead of inventing a value.
\<close>

datatype error = ValueError | TypeError | IndexError | ZeroDivisionError | ZeroDenominator

definition and_then :: "error + 'a \<Rightarrow> ('a \<Rightarrow> error + 'b) \<Rightarrow> error + 'b" where
  "and_then m f = (case m of Inl e \<Rightarrow> Inl e | Inr x \<Rightarrow> f x)"

definition index :: "'a list \<Rightarrow> nat \<Rightarrow> error + 'a" where
  \<comment> \<open>\<open>xs[n]\<close> for \<open>n \<ge> 0\<close>: IndexError out of range.\<close>
  "index xs n = (if n < length xs then Inr (xs ! n) else Inl IndexError)"

definition neg_index :: "'a list \<Rightarrow> nat \<Rightarrow> error + 'a" where
  \<comment> \<open>\<open>xs[-k]\<close> for \<open>k \<ge> 1\<close>: IndexError out of range.\<close>
  "neg_index xs k =
     (if 1 \<le> k \<and> k \<le> length xs then Inr (xs ! (length xs - k)) else Inl IndexError)"

section \<open>Degrees of freedom\<close>

text \<open>
  \<^verbatim>\<open>
  result = 0
  for n in range(t.ndim):
      if t.cores[n].requires_grad:
          result += t.cores[n].numel()
      if t.Us[n] is not None and t.Us[n].requires_grad:
          result += t.Us[n].numel()
  return result
  \<close>
\<close>

fun dof_loop :: "tnet \<Rightarrow> nat list \<Rightarrow> nat \<Rightarrow> error + nat" where
  "dof_loop t [] result = Inr result"
| "dof_loop t (n # ns) result =
     and_then (index (cores t) n) (\<lambda>c.
       let result = (if requires_grad c then result + numel c else result) in
       and_then (index (Us t) n) (\<lambda>u.
         case u of
           None \<Rightarrow> dof_loop t ns result
         | Some U \<Rightarrow> dof_loop t ns (if requires_grad U then result + numel U else result)))"

definition dof :: "tnet \<Rightarrow> error + nat" where
  "dof t = dof_loop t [0..<ndim t] 0"

text \<open>
  Modelled from the spec: a network has one core and one optional factor per dimension.
  \<open>dof\<close> relies on it when it indexes both sequences up to \<open>ndim\<close>.
\<close>

definition well_formed :: "tnet \<Rightarrow> bool" where
  "well_formed t = (length (cores t) = ndim t \<and> length (Us t) = ndim t)"

fun present :: "'a option list \<Rightarrow> 'a list" where
  "present [] = []"
| "present (None # us) = present us"
| "present (Some U # us) = U # present us"

definition learnable_count :: "node list \<Rightarrow> nat" where
  \<comment> \<open>The specification's words: the element counts of the entries whose flag is set.\<close>
  "learnable_count xs = sum_list (map numel (filter requires_grad xs))"

definition contribution :: "tnet \<Rightarrow> nat \<Rightarrow> nat" where
  "contribution t n =
     (if requires_grad (cores t ! n) then numel (cores t ! n) else 0) +
     (case Us t ! n of None \<Rightarrow> 0 | Some U \<Rightarrow> if requires_grad U then numel U else 0)"

section \<open>The optimization driver\<close>

subsection \<open>Arguments, collaborators and loop state\<close>

text \<open>
  \<open>tensors\<close> is one network or a list (or tuple) of networks. The loss function returns a
  scalar or a tuple (or list) of scalars. Losses are real numbers: rounding, infinities
  and NaN of the floating-point values are outside this model.
\<close>

datatype tensors_arg = One tnet | Many "tnet list"

datatype loss_result = Scalar real | Sequence "real list"

text \<open>\<open>delta_loss\<close> is a difference of two losses, or \<open>float('-inf')\<close>.\<close>

datatype delta = NegInf | Finite real

text \<open>
  A printed line: the iteration, the component losses and, when there are several, their
  sum; the final line also says whether the run converged. The elapsed wall-clock time
  the source prints is left out.
\<close>

datatype line =
  Progress int "real list" "real option"
| Final int "real list" "real option" bool

datatype 'a flow = Break 'a | Continue 'a

text \<open>
  The automatic differentiation and the Adam optimizer are external. \<open>'st\<close> is the store
  they act on: the values and gradients of all tensors and the optimizer's own moments.
  \<open>zero_grad\<close> and \<open>step\<close> belong to the optimizer built from the parameter list,
  \<open>backward\<close> is \<open>losses[-1].backward()\<close>.
\<close>

record 'st torch =
  zero_grad :: "node list \<Rightarrow> 'st \<Rightarrow> 'st"
  backward :: "'st \<Rightarrow> 'st"
  step :: "node list \<Rightarrow> 'st \<Rightarrow> 'st"

text \<open>
  What the loop reads and never changes: the arguments of \<open>optimize\<close>, the optimizer and
  the parameter list it was built from. The loss function is evaluated on the networks in
  the current store.
\<close>

record 'st call =
  tensors :: "tnet list"
  loss_function :: "tnet list \<Rightarrow> 'st \<Rightarrow> loss_result"
  tol :: "real option"
  max_iter :: int
  print_freq :: int
  verbose :: bool
  optimizer :: "'st torch"
  parameters :: "node list"

text \<open>
  The local variables of the loop, the store and the printed output. \<open>evaluations\<close> and
  \<open>steps\<close> count the calls of the loss function and of \<open>optimizer.step()\<close>; the source
  has no such counters, they are there to state how often each happened.
\<close>

record 'st state =
  store :: 'st
  losses :: "real list"
  iter :: int
  converged :: bool
  loss :: "real list"
  evaluations :: nat
  steps :: nat
  printed :: "line list"

subsection \<open>Collecting the parameters\<close>

text \<open>
  \<^verbatim>\<open>
  if not isinstance(tensors, (list, tuple)):
      tensors = [tensors]
  parameters = []
  for t in tensors:
      parameters.extend([c for c in t.cores if c.requires_grad])
      parameters.extend([U for U in t.Us if U is not None and U.requires_grad])
  \<close>
\<close>

definition as_list :: "tensors_arg \<Rightarrow> tnet list" where
  "as_list ta = (case ta of One t \<Rightarrow> [t] | Many ts \<Rightarrow> ts)"

fun learnable_Us :: "node option list \<Rightarrow> node list" where
  "learnable_Us [] = []"
| "learnable_Us (None # us) = learnable_Us us"
| "learnable_Us (Some U # us) =
     (if requires_grad U then U # learnable_Us us else learnable_Us us)"

fun collect :: "tnet list \<Rightarrow> node list \<Rightarrow> node list" where
  "collect [] params = params"
| "collect (t # ts) params =
     collect ts ((params @ filter requires_grad (cores t)) @ learnable_Us (Us t))"

subsection \<open>One iteration\<close>

text \<open>
  \<^verbatim>\<open>
  loss = loss_function(*tensors)
  if not isinstance(loss, (tuple, list)):
      loss = [loss]
  losses.append(reduce(lambda x, y: x + y, loss))
  if len(losses) >= 2:
      delta_loss = (losses[-1] - losses[-2])
  else:
      delta_loss = float('-inf')
  \<close>
  \<open>reduce\<close> without an initial value raises TypeError on an empty sequence.
\<close>

definition as_sequence :: "loss_result \<Rightarrow> real list" where
  "as_sequence r = (case r of Scalar x \<Rightarrow> [x] | Sequence xs \<Rightarrow> xs)"

definition reduce_add :: "real list \<Rightarrow> error + real" where
  "reduce_add xs = (case xs of [] \<Rightarrow> Inl TypeError | x # rest \<Rightarrow> Inr (foldl (+) x rest))"

definition delta_loss :: "real list \<Rightarrow> delta" where
  "delta_loss ls =
     (if 2 \<le> length ls then Finite (ls ! (length ls - 1) - ls ! (length ls - 2)) else NegInf)"

text \<open>
  \<^verbatim>\<open>
  if iter >= 2 and tol is not None and (losses[-1] <= tol or -delta_loss / losses[-1] <= tol)
          and losses[-2] - losses[-1] < losses[-3] - losses[-2]:
  \<close>
  \<open>and\<close> and \<open>or\<close> evaluate from left to right and stop as soon as the result is known.
  \<open>quotient_le\<close> is the comparison \<open>-delta_loss / losses[-1] <= tol\<close>: with
  \<open>delta_loss = -inf\<close> the quotient is \<open>+inf\<close> for a positive and \<open>-inf\<close> for a negative
  latest loss.
\<close>

definition quotient_le :: "delta \<Rightarrow> real \<Rightarrow> real \<Rightarrow> error + bool" where
  "quotient_le d l t =
     (if l = 0 then Inl ZeroDenominator
      else case d of Finite x \<Rightarrow> Inr (- x / l \<le> t) | NegInf \<Rightarrow> Inr (l < 0))"

definition stop_criterion :: "'st call \<Rightarrow> 'st state \<Rightarrow> delta \<Rightarrow> error + bool" where
  "stop_criterion c s d =
     (if iter s < 2 then Inr False
      else case tol c of
        None \<Rightarrow> Inr False
      | Some t \<Rightarrow>
          and_then (neg_index (losses s) 1) (\<lambda>l1.
          and_then (if l1 \<le> t then Inr True else quotient_le d l1 t) (\<lambda>small.
            if \<not> small then Inr False
            else and_then (neg_index (losses s) 2) (\<lambda>l2.
                 and_then (neg_index (losses s) 3) (\<lambda>l3. Inr (l2 - l1 < l3 - l2))))))"

text \<open>
  \<^verbatim>\<open>
  if verbose and iter % print_freq == 0:
      print('iter: {: <6} | loss: '.format(iter), end='')
      print(' + '.join(['{:10.6f}'.format(l.item()) for l in loss]), end='')
      if len(loss) > 1:
          print(' = {:10.4}'.format(losses[-1].item()), end='')
      print(' | total time: {:9.4f}'.format(time.time() - start))
  \<close>
  The modulo is evaluated only when \<open>verbose\<close> holds; with \<open>print_freq = 0\<close> it raises
  ZeroDivisionError. Python's \<open>%\<close> on integers is \<open>mod\<close> on \<open>int\<close>.
\<close>

definition total_shown :: "'st state \<Rightarrow> real option" where
  "total_shown s = (if 1 < length (loss s) then Some (last (losses s)) else None)"

definition progress :: "'st call \<Rightarrow> 'st state \<Rightarrow> error + 'st state" where
  "progress c s =
     (if \<not> verbose c then Inr s
      else if print_freq c = 0 then Inl ZeroDivisionError
      else if iter s mod print_freq c = 0
        then Inr (s\<lparr>printed := printed s @ [Progress (iter s) (loss s) (total_shown s)]\<rparr>)
      else Inr s)"

text \<open>
  The body of \<open>while True\<close>. A raise ends the run with the error and the state reached.
  \<^verbatim>\<open>
  optimizer.zero_grad()
  loss = ...; losses.append(...); delta_loss = ...
  if <criterion>:
      converged = True
      break
  if iter == max_iter:
      break
  if verbose and iter % print_freq == 0: ...
  losses[-1].backward()
  optimizer.step()
  iter += 1
  \<close>
\<close>

definition loop_body :: "'st call \<Rightarrow> 'st state \<Rightarrow> (error \<times> 'st state) + 'st state flow" where
  "loop_body c s =
     (let s1 = s\<lparr>store := zero_grad (optimizer c) (parameters c) (store s)\<rparr>;
          s2 = s1\<lparr>loss := as_sequence (loss_function c (tensors c) (store s1)),
                  evaluations := Suc (evaluations s1)\<rparr>
      in case reduce_add (loss s2) of
           Inl e \<Rightarrow> Inl (e, s2)
         | Inr combined \<Rightarrow>
             let s3 = s2\<lparr>losses := losses s2 @ [combined]\<rparr> in
             case stop_criterion c s3 (delta_loss (losses s3)) of
               Inl e \<Rightarrow> Inl (e, s3)
             | Inr True \<Rightarrow> Inr (Break (s3\<lparr>converged := True\<rparr>))
             | Inr False \<Rightarrow>
                 if iter s3 = max_iter c then Inr (Break s3)
                 else case progress c s3 of
                   Inl e \<Rightarrow> Inl (e, s3)
                 | Inr s4 \<Rightarrow>
                     Inr (Continue (s4\<lparr>
                       store := step (optimizer c) (parameters c)
                                  (backward (optimizer c) (store s4)),
                       steps := Suc (steps s4),
                       iter := iter s4 + 1\<rparr>)))"

subsection \<open>The loop and the driver\<close>

text \<open>
  \<open>while True\<close> has no bound of its own: the result is \<open>None\<close> when the loop never
  leaves, \<open>Some (Inl (e, s))\<close> when it raises \<open>e\<close> in state \<open>s\<close>, and \<open>Some (Inr s)\<close>
  when it breaks in state \<open>s\<close>.
\<close>

partial_function (option) optimize_loop ::
  "'st call \<Rightarrow> 'st state \<Rightarrow> ((error \<times> 'st state) + 'st state) option" where
  "optimize_loop c s =
     (case loop_body c s of
        Inl e \<Rightarrow> Some (Inl e)
      | Inr (Break s') \<Rightarrow> Some (Inr s')
      | Inr (Continue s') \<Rightarrow> optimize_loop c s')"

declare optimize_loop.simps [code]

text \<open>
  \<^verbatim>\<open>
  if verbose:
      print('iter: ...'); ...
      if converged: print(' <- converged (tol={})'.format(tol))
      else: print(' <- max_iter was reached')
  \<close>
\<close>

definition final_report :: "'st call \<Rightarrow> 'st state \<Rightarrow> 'st state" where
  "final_report c s =
     (if verbose c
      then s\<lparr>printed := printed s @ [Final (iter s) (loss s) (total_shown s) (converged s)]\<rparr>
      else s)"

definition initial :: "'st \<Rightarrow> 'st state" where
  "initial st = \<lparr>store = st, losses = [], iter = 0, converged = False, loss = [],
                 evaluations = 0, steps = 0, printed = []\<rparr>"

text \<open>
  \<open>optimize(tensors, loss_function, tol, max_iter, print_freq, verbose)\<close>, with the
  collaborators and the store it starts from. A call with \<open>tol=None\<close> has the tolerance
  \<open>None\<close>, a call with \<open>tol=x\<close> the tolerance \<open>Some x\<close>. The source returns nothing; the
  model returns the final state so that properties of the run can be stated.
\<close>

definition optimize ::
  "'st torch \<Rightarrow> tensors_arg \<Rightarrow> (tnet list \<Rightarrow> 'st \<Rightarrow> loss_result) \<Rightarrow> real option \<Rightarrow> int
     \<Rightarrow> int \<Rightarrow> bool \<Rightarrow> 'st \<Rightarrow> ((error \<times> 'st state) + 'st state) option" where
  "optimize opt tensors' loss_function' tol' max_iter' print_freq' verbose' st =
     (let ts = as_list tensors';
          ps = collect ts [];
          c = \<lparr>tensors = ts, loss_function = loss_function', tol = tol',
               max_iter = max_iter', print_freq = print_freq', verbose = verbose',
               optimizer = opt, parameters = ps\<rparr>
      in if length ps = 0 then Some (Inl (ValueError, initial st))
         else case optimize_loop c (initial st) of
                None \<Rightarrow> None
              | Some (Inl e) \<Rightarrow> Some (Inl e)
              | Some (Inr s) \<Rightarrow> Some (Inr (final_report c s)))"

section \<open>Notions used in the statements and proofs\<close>

text \<open>
  All cores and present factors of the supplied networks, in the order the collection
  loop visits them, flagged or not.
\<close>

definition nodes :: "tnet \<Rightarrow> node list" where
  "nodes t = cores t @ present (Us t)"

definition all_nodes :: "tnet list \<Rightarrow> node list" where
  "all_nodes ts = concat (map nodes ts)"

text \<open>
  How often the object with identity \<open>i\<close> occurs, with its flag set, among the cores and
  present factors of the supplied networks.
\<close>

definition occurrences :: "nat \<Rightarrow> tnet list \<Rightarrow> nat" where
  "occurrences i ts = length (filter (\<lambda>x. requires_grad x \<and> ident x = i) (all_nodes ts))"

text \<open>
  The combined loss an iteration started in state \<open>s\<close> computes, the state after it has
  been appended to the trace, and the state after the backward pass and the optimizer
  step: the three stages of \<open>loop_body\<close>.
\<close>

definition combined_loss :: "'st call \<Rightarrow> 'st state \<Rightarrow> error + real" where
  "combined_loss c s =
     reduce_add (as_sequence (loss_function c (tensors c)
                   (zero_grad (optimizer c) (parameters c) (store s))))"

definition recorded :: "'st call \<Rightarrow> 'st state \<Rightarrow> real \<Rightarrow> 'st state" where
  "recorded c s l =
     s\<lparr>store := zero_grad (optimizer c) (parameters c) (store s),
       loss := as_sequence (loss_function c (tensors c)
                 (zero_grad (optimizer c) (parameters c) (store s))),
       evaluations := Suc (evaluations s),
       losses := losses s @ [l]\<rparr>"

definition advanced :: "'st call \<Rightarrow> 'st state \<Rightarrow> 'st state" where
  "advanced c s =
     s\<lparr>store := step (optimizer c) (parameters c) (backward (optimizer c) (store s)),
       steps := Suc (steps s),
       iter := iter s + 1\<rparr>"

text \<open>What the loss function returns in the iteration started in state \<open>s\<close>.\<close>

definition returned_loss :: "'st call \<Rightarrow> 'st state \<Rightarrow> loss_result" where
  "returned_loss c s =
     loss_function c (tensors c) (zero_grad (optimizer c) (parameters c) (store s))"

text \<open>The state in which an iteration ends, however it ends.\<close>

fun reached :: "(error \<times> 'st state) + 'st state flow \<Rightarrow> 'st state" where
  "reached (Inl (e, s)) = s"
| "reached (Inr (Break s)) = s"
| "reached (Inr (Continue s)) = s"

text \<open>The iteration started in state \<open>s\<close> ends the loop with outcome \<open>r\<close>.\<close>

definition leaves :: "'st call \<Rightarrow> 'st state \<Rightarrow> (error \<times> 'st state) + 'st state \<Rightarrow> bool" where
  "leaves c s r =
     (case loop_body c s of
        Inl e \<Rightarrow> r = Inl e
      | Inr (Break s') \<Rightarrow> r = Inr s'
      | Inr (Continue s') \<Rightarrow> False)"

text \<open>
  The states in which the iterations of a run start: the first state, and every state a
  continuing iteration hands to the next.
\<close>

inductive iterates :: "'st call \<Rightarrow> 'st state \<Rightarrow> 'st state \<Rightarrow> bool" for c :: "'st call" where
  start: "iterates c s s"
| continue: "iterates c s s' \<Longrightarrow> loop_body c s' = Inr (Continue s'') \<Longrightarrow> iterates c s s''"

text \<open>
  The stopping criterion in the specification's words, on a loss trace \<open>L\<close> (the loss of
  iteration \<open>k\<close> is \<open>L k\<close>): from iteration 2 on, with a tolerance supplied, the latest
  loss or the negative relative improvement is at most the tolerance, and the improvement
  from \<open>n - 2\<close> to \<open>n - 1\<close> strictly exceeds the improvement from \<open>n - 1\<close> to \<open>n\<close>.
\<close>

definition criterion :: "(nat \<Rightarrow> real) \<Rightarrow> real option \<Rightarrow> nat \<Rightarrow> bool" where
  "criterion L tolerance n =
     (2 \<le> n \<and>
      (case tolerance of
         None \<Rightarrow> False
       | Some t \<Rightarrow> (L n \<le> t \<or> - (L n - L (n - 1)) / L n \<le> t) \<and>
                   L (n - 1) - L n < L (n - 2) - L (n - 1)))"

text \<open>
  The loop state at the start of an iteration when every loss so far was \<open>c0\<close>.
\<close>

definition steady :: "real \<Rightarrow> 'st state \<Rightarrow> bool" where
  "steady c0 s =
     (\<not> converged s \<and> 0 \<le> iter s \<and> losses s = replicate (nat (iter s)) c0 \<and>
      evaluations s = nat (iter s) \<and> steps s = nat (iter s))"

text \<open>
  Everything of a run but its printed output: \<open>unprinted\<close> erases the output of a state,
  \<open>silent\<close> that of an outcome, and \<open>quiet\<close> is the call with reporting switched off.
\<close>

definition unprinted :: "'st state \<Rightarrow> 'st state" where
  "unprinted s = s\<lparr>printed := []\<rparr>"

definition quiet :: "'st call \<Rightarrow> 'st call" where
  "quiet c = c\<lparr>verbose := False, print_freq := 1\<rparr>"

fun silent_step ::
  "(error \<times> 'st state) + 'st state flow \<Rightarrow> (error \<times> 'st state) + 'st state flow" where
  "silent_step (Inl (e, s)) = Inl (e, unprinted s)"
| "silent_step (Inr (Break s)) = Inr (Break (unprinted s))"
| "silent_step (Inr (Continue s)) = Inr (Continue (unprinted s))"

fun silent :: "(error \<times> 'st state) + 'st state \<Rightarrow> (error \<times> 'st state) + 'st state" where
  "silent (Inl (e, s)) = Inl (e, unprinted s)"
| "silent (Inr s) = Inr (unprinted s)"

subsection \<open>Example inputs\<close>

text \<open>
  A store that is one real number, halved by every optimizer step; loss functions that
  return the store, the store and a second term, the store minus one, and a constant; a
  network with a learnable core, a frozen core, an absent factor and a learnable factor,
  and further networks beside it.
\<close>

definition plain_loss :: "tnet list \<Rightarrow> real \<Rightarrow> loss_result" where
  "plain_loss ts x = Scalar x"

definition two_term_loss :: "tnet list \<Rightarrow> real \<Rightarrow> loss_result" where
  "two_term_loss ts x = Sequence [x, 1]"

definition shifted_loss :: "tnet list \<Rightarrow> real \<Rightarrow> loss_result" where
  "shifted_loss ts x = Scalar (x - 1)"


definition halving :: "real torch" where
  "halving = \<lparr>zero_grad = (\<lambda>ps x. x), backward = (\<lambda>x. x), step = (\<lambda>ps x. x / 2)\<rparr>"

definition small_net :: tnet where
  "small_net = \<lparr>cores = [\<lparr>ident = 0, requires_grad = True, numel = 6\<rparr>,
                          \<lparr>ident = 1, requires_grad = False, numel = 4\<rparr>],
                 Us = [None, Some \<lparr>ident = 2, requires_grad = True, numel = 9\<rparr>],
                 ndim = 2\<rparr>"

definition frozen_net :: tnet where
  "frozen_net = \<lparr>cores = [\<lparr>ident = 3, requires_grad = False, numel = 6\<rparr>],
                  Us = [Some \<lparr>ident = 4, requires_grad = False, numel = 9\<rparr>],
                  ndim = 1\<rparr>"

definition sharing_net :: tnet where
  "sharing_net = \<lparr>cores = [\<lparr>ident = 0, requires_grad = True, numel = 6\<rparr>,
                            \<lparr>ident = 5, requires_grad = True, numel = 8\<rparr>],
                   Us = [None, None],
                   ndim = 2\<rparr>"

definition other_net :: tnet where
  "other_net = \<lparr>cores = [\<lparr>ident = 6, requires_grad = True, numel = 8\<rparr>],
                 Us = [None], ndim = 1\<rparr>"

text \<open>A network whose two cores are one and the same learnable object.\<close>

definition tied_net :: tnet where
  "tied_net = \<lparr>cores = [\<lparr>ident = 7, requires_grad = True, numel = 6\<rparr>,
                         \<lparr>ident = 7, requires_grad = True, numel = 6\<rparr>],
                Us = [None, None], ndim = 2\<rparr>"

definition halving_call ::
  "(tnet list \<Rightarrow> real \<Rightarrow> loss_result) \<Rightarrow> real option \<Rightarrow> int \<Rightarrow> int \<Rightarrow> bool \<Rightarrow> real call" where
  "halving_call lf tolerance budget freq vb =
     \<lparr>tensors = [small_net], loss_function = lf, tol = tolerance,
      max_iter = budget, print_freq = freq, verbose = vb, optimizer = halving,
      parameters = collect [small_net] []\<rparr>"

definition third_iteration :: "real state" where
  "third_iteration = \<lparr>store = 1, losses = [4, 2], iter = 2, converged = False, loss = [2],
                       evaluations = 2, steps = 2, printed = []\<rparr>"

section \<open>Properties of \<open>dof\<close>\<close>

lemma dof_loop_sum:
  assumes "\<forall>n \<in> set ns. n < length (cores t) \<and> n < length (Us t)"
  shows "dof_loop t ns acc = Inr (acc + sum_list (map (contribution t) ns))"
  using assms
proof (induction ns arbitrary: acc)
  case Nil
  then show ?case by simp
next
  case (Cons n ns)
  then have rng: "n < length (cores t)" "n < length (Us t)" by simp_all
  from Cons have rest: "\<And>a. dof_loop t ns a = Inr (a + sum_list (map (contribution t) ns))"
    by simp
  have here: "contribution t n =
      (if requires_grad (cores t ! n) then numel (cores t ! n) else 0) +
      (case Us t ! n of None \<Rightarrow> 0 | Some U \<Rightarrow> if requires_grad U then numel U else 0)"
    by (simp add: contribution_def)
  show ?case
    by (cases "Us t ! n") (simp_all add: and_then_def index_def rng rest here Let_def)
qed

lemma learnable_count_nth:
  "sum_list (map (\<lambda>n. if requires_grad (xs ! n) then numel (xs ! n) else 0) [0..<length xs])
     = learnable_count xs"
proof -
  have "map (\<lambda>n. if requires_grad (xs ! n) then numel (xs ! n) else 0) [0..<length xs]
          = map (\<lambda>x. if requires_grad x then numel x else 0) xs"
    by (rule nth_equalityI) simp_all
  moreover have "sum_list (map (\<lambda>x. if requires_grad x then numel x else 0) xs)
                   = learnable_count xs"
    by (induction xs) (simp_all add: learnable_count_def)
  ultimately show ?thesis by simp
qed

lemma present_count_nth:
  "sum_list (map (\<lambda>n. case us ! n of None \<Rightarrow> 0
                        | Some U \<Rightarrow> if requires_grad U then numel U else 0) [0..<length us])
     = learnable_count (present us)"
proof -
  have "map (\<lambda>n. case us ! n of None \<Rightarrow> 0
                   | Some U \<Rightarrow> if requires_grad U then numel U else 0) [0..<length us]
          = map (\<lambda>u. case u of None \<Rightarrow> 0
                       | Some U \<Rightarrow> if requires_grad U then numel U else 0) us"
    by (rule nth_equalityI) simp_all
  moreover have "sum_list (map (\<lambda>u. case u of None \<Rightarrow> 0
                       | Some U \<Rightarrow> if requires_grad U then numel U else 0) us)
                   = learnable_count (present us)"
    by (induction us rule: present.induct) (simp_all add: learnable_count_def)
  ultimately show ?thesis by simp
qed

text \<open>
  C3. For every tensor network with one core and one optional factor per dimension,
  \<open>dof\<close> returns the element counts of the cores whose flag is set plus those of the
  present factors whose flag is set; unflagged entries and absent factors add nothing.
\<close>

theorem dof_exact_sum:
  assumes "well_formed t"
  shows "dof t = Inr (learnable_count (cores t) + learnable_count (present (Us t)))"
proof -
  from assms have len: "length (cores t) = ndim t" "length (Us t) = ndim t"
    by (simp_all add: well_formed_def)
  have "dof t = Inr (sum_list (map (contribution t) [0..<ndim t]))"
    unfolding dof_def by (subst dof_loop_sum) (simp_all add: len)
  also have "sum_list (map (contribution t) [0..<ndim t])
      = sum_list (map (\<lambda>n. if requires_grad (cores t ! n) then numel (cores t ! n) else 0)
                      [0..<length (cores t)])
      + sum_list (map (\<lambda>n. case Us t ! n of None \<Rightarrow> 0
                        | Some U \<Rightarrow> if requires_grad U then numel U else 0)
                      [0..<length (Us t)])"
    unfolding len contribution_def by (simp add: sum_list_addf)
  finally show ?thesis
    by (simp only: learnable_count_nth present_count_nth)
qed

theorem dof_exact_sum_witness:
  "well_formed \<lparr>cores = [\<lparr>ident = 0, requires_grad = True, numel = 6\<rparr>,
                          \<lparr>ident = 1, requires_grad = False, numel = 12\<rparr>,
                          \<lparr>ident = 2, requires_grad = True, numel = 8\<rparr>],
                 Us = [None, Some \<lparr>ident = 3, requires_grad = True, numel = 10\<rparr>,
                       Some \<lparr>ident = 4, requires_grad = False, numel = 5\<rparr>],
                 ndim = 3\<rparr>
   \<and> dof \<lparr>cores = [\<lparr>ident = 0, requires_grad = True, numel = 6\<rparr>,
                    \<lparr>ident = 1, requires_grad = False, numel = 12\<rparr>,
                    \<lparr>ident = 2, requires_grad = True, numel = 8\<rparr>],
           Us = [None, Some \<lparr>ident = 3, requires_grad = True, numel = 10\<rparr>,
                 Some \<lparr>ident = 4, requires_grad = False, numel = 5\<rparr>],
           ndim = 3\<rparr> = Inr 24"
proof -
  let ?t = "\<lparr>cores = [\<lparr>ident = 0, requires_grad = True, numel = 6\<rparr>,
                       \<lparr>ident = 1, requires_grad = False, numel = 12\<rparr>,
                       \<lparr>ident = 2, requires_grad = True, numel = 8\<rparr>],
              Us = [None, Some \<lparr>ident = 3, requires_grad = True, numel = 10\<rparr>,
                    Some \<lparr>ident = 4, requires_grad = False, numel = 5\<rparr>],
              ndim = 3\<rparr>"
  have wf: "well_formed ?t" by (simp add: well_formed_def)
  from dof_exact_sum [OF wf] wf show ?thesis by (simp add: learnable_count_def)
qed

section \<open>The parameter collection\<close>

lemma learnable_Us_filter: "learnable_Us us = filter requires_grad (present us)"
  by (induction us rule: learnable_Us.induct) simp_all

lemma collect_append: "collect ts acc = acc @ filter requires_grad (all_nodes ts)"
  by (induction ts arbitrary: acc) (simp_all add: all_nodes_def nodes_def learnable_Us_filter)

lemma collect_filter: "collect ts [] = filter requires_grad (all_nodes ts)"
  by (simp add: collect_append)

lemma set_present: "set (present us) = {U. Some U \<in> set us}"
  by (induction us rule: present.induct) auto

lemma count_learnable:
  "count_list (map ident (filter requires_grad xs)) i
     = length (filter (\<lambda>x. requires_grad x \<and> ident x = i) xs)"
  by (induction xs) simp_all

lemma distinct_count_list: "distinct xs \<longleftrightarrow> (\<forall>x. count_list xs x \<le> 1)"
proof (induction xs)
  case Nil
  show ?case by simp
next
  case (Cons a xs)
  have "(\<forall>x. count_list (a # xs) x \<le> 1)
          \<longleftrightarrow> count_list xs a = 0 \<and> (\<forall>x. count_list xs x \<le> 1)"
    by (auto simp: le_Suc_eq)
  with Cons show ?case by (simp add: count_list_0_iff)
qed

text \<open>
  C7, as the specification states it: the parameter list holds every learnable core or
  factor at most once. The collection loop extends the list network by network and
  removes nothing: \<open>small_net\<close> and \<open>sharing_net\<close> share the core with identity 0, and
  the list handed to the optimizer holds it twice.
\<close>

theorem shared_core_listed_twice:
  "map ident (collect (as_list (Many [small_net, sharing_net])) []) = [0, 2, 0, 5] \<and>
   \<not> distinct (map ident (collect (as_list (Many [small_net, sharing_net])) []))"
  by (simp add: as_list_def small_net_def sharing_net_def)

text \<open>
  C7, amended. The parameter list is the list of all cores and present factors of the
  supplied networks, in order, restricted to those whose flag is set: one entry for each
  occurrence of a learnable object, whether it occurs in several networks, several times
  in one network, or in a network supplied twice. The list is free of duplicates exactly
  when no learnable object occurs more than once among the cores and present factors of
  the supplied networks.
\<close>

theorem parameters_per_occurrence:
  "collect (as_list ta) [] = filter requires_grad (all_nodes (as_list ta)) \<and>
   (\<forall>i. count_list (map ident (collect (as_list ta) [])) i = occurrences i (as_list ta)) \<and>
   (distinct (map ident (collect (as_list ta) []))
      \<longleftrightarrow> (\<forall>i. occurrences i (as_list ta) \<le> 1))"
  by (simp add: collect_filter distinct_count_list count_learnable occurrences_def)

theorem parameters_per_occurrence_witness:
  "map ident (collect (as_list (Many [small_net, other_net])) []) = [0, 2, 6] \<and>
   distinct (map ident (collect (as_list (Many [small_net, other_net])) [])) \<and>
   occurrences 0 (as_list (Many [small_net, other_net])) = 1 \<and>
   occurrences 1 (as_list (Many [small_net, other_net])) = 0 \<and>
   \<not> distinct (map ident (collect (as_list (One tied_net)) [])) \<and>
   occurrences 7 (as_list (One tied_net)) = 2 \<and>
   \<not> occurrences 7 (as_list (One tied_net)) \<le> 1"
proof -
  have a: "map ident (collect (as_list (Many [small_net, other_net])) []) = [0, 2, 6]"
    by (simp add: as_list_def small_net_def other_net_def)
  from parameters_per_occurrence [of "Many [small_net, other_net]"]
  have b: "count_list (map ident (collect (as_list (Many [small_net, other_net])) [])) 0
             = occurrences 0 (as_list (Many [small_net, other_net]))"
    and c: "count_list (map ident (collect (as_list (Many [small_net, other_net])) [])) 1
             = occurrences 1 (as_list (Many [small_net, other_net]))"
    by blast+
  from parameters_per_occurrence [of "One tied_net"]
  have d: "count_list (map ident (collect (as_list (One tied_net)) [])) 7
             = occurrences 7 (as_list (One tied_net))"
    and e: "distinct (map ident (collect (as_list (One tied_net)) []))
             \<longleftrightarrow> (\<forall>i. occurrences i (as_list (One tied_net)) \<le> 1)"
    by blast+
  have t: "map ident (collect (as_list (One tied_net)) []) = [7, 7]"
    by (simp add: as_list_def tied_net_def)
  from b c have o: "occurrences 0 (as_list (Many [small_net, other_net])) = 1"
    "occurrences 1 (as_list (Many [small_net, other_net])) = 0"
    unfolding a by simp_all
  from d have o7: "occurrences 7 (as_list (One tied_net)) = 2" unfolding t by simp
  have nd: "\<not> distinct (map ident (collect (as_list (One tied_net)) []))"
    unfolding t by simp
  from a o o7 nd show ?thesis by simp
qed

text \<open>
  Sharing between networks is not the only source of duplicates: one network whose two
  cores are the same learnable object puts it into the list twice.
\<close>

lemma tied_core_listed_twice:
  "map ident (collect (as_list (One tied_net)) []) = [7, 7]"
  by (simp add: as_list_def tied_net_def)

text \<open>
  C2. When no core and no present factor of the supplied networks has its flag set,
  \<open>optimize\<close> raises the ValueError in the initial state: no loss has been evaluated, no
  optimizer step taken, the trace is empty and the store untouched.
\<close>

theorem no_parameters_error:
  assumes "\<forall>t \<in> set (as_list ta).
             (\<forall>c \<in> set (cores t). \<not> requires_grad c) \<and>
             (\<forall>U. Some U \<in> set (Us t) \<longrightarrow> \<not> requires_grad U)"
  shows "optimize opt ta lf tolerance budget freq vb st = Some (Inl (ValueError, initial st)) \<and>
         evaluations (initial st) = 0 \<and> steps (initial st) = 0 \<and>
         losses (initial st) = [] \<and> store (initial st) = st"
proof -
  have "\<forall>x \<in> set (all_nodes (as_list ta)). \<not> requires_grad x"
    using assms by (auto simp: all_nodes_def nodes_def set_present)
  then have "collect (as_list ta) [] = []"
    by (simp add: collect_filter filter_empty_conv)
  then show ?thesis
    by (simp add: optimize_def initial_def)
qed

theorem no_parameters_error_witness:
  "optimize halving (Many [frozen_net, frozen_net]) plain_loss (Some (1 / 10000))
     10000 500 True 16 = Some (Inl (ValueError, initial 16)) \<and>
   evaluations (initial (16::real)) = 0 \<and> losses (initial (16::real)) = []"
proof -
  have "\<forall>t \<in> set (as_list (Many [frozen_net, frozen_net])).
          (\<forall>c \<in> set (cores t). \<not> requires_grad c) \<and>
          (\<forall>U. Some U \<in> set (Us t) \<longrightarrow> \<not> requires_grad U)"
    by (simp add: as_list_def frozen_net_def)
  from no_parameters_error [OF this, of halving plain_loss "Some (1 / 10000)"
      10000 500 True 16]
  show ?thesis by simp
qed

text \<open>
  C9. A single network that is not a list or tuple is wrapped into a list of one: the
  call collects the same parameters and has the same outcome (the same trace, stopping
  decisions, updates and output, or the same error) as the call with the singleton list.
\<close>

theorem single_network_as_singleton:
  "optimize opt (One t) lf tolerance budget freq vb st
     = optimize opt (Many [t]) lf tolerance budget freq vb st \<and>
   collect (as_list (One t)) [] = collect (as_list (Many [t])) []"
  by (simp add: optimize_def as_list_def)

section \<open>One iteration of the loop\<close>

lemma loop_body_recorded:
  assumes "combined_loss c s = Inr l"
  shows "loop_body c s =
    (case stop_criterion c (recorded c s l) (delta_loss (losses s @ [l])) of
       Inl e \<Rightarrow> Inl (e, recorded c s l)
     | Inr True \<Rightarrow> Inr (Break ((recorded c s l)\<lparr>converged := True\<rparr>))
     | Inr False \<Rightarrow>
         if iter s = max_iter c then Inr (Break (recorded c s l))
         else case progress c (recorded c s l) of
           Inl e \<Rightarrow> Inl (e, recorded c s l)
         | Inr s4 \<Rightarrow> Inr (Continue (advanced c s4)))"
  using assms
  by (simp add: loop_body_def combined_loss_def recorded_def advanced_def Let_def
           cong: sum.case_cong bool.case_cong if_cong)

lemma loop_body_raises:
  assumes "combined_loss c s = Inl e"
  shows "\<exists>s'. loop_body c s = Inl (e, s') \<and> losses s' = losses s \<and>
              converged s' = converged s \<and> iter s' = iter s"
  using assms by (simp add: loop_body_def combined_loss_def Let_def)

lemma foldl_add: "foldl (+) (a::real) xs = a + sum_list xs"
  by (induction xs arbitrary: a) simp_all

lemma reduce_add_sum: "xs \<noteq> [] \<Longrightarrow> reduce_add xs = Inr (sum_list xs)"
  by (cases xs) (simp_all add: reduce_add_def foldl_add)

lemma reduce_add_empty: "reduce_add [] = Inl TypeError"
  by (simp add: reduce_add_def)

lemma progress_fields:
  assumes "progress c s = Inr s'"
  shows "store s' = store s" "losses s' = losses s" "iter s' = iter s"
        "converged s' = converged s" "loss s' = loss s"
        "evaluations s' = evaluations s" "steps s' = steps s"
  using assms by (auto simp: progress_def split: if_splits)

lemma recorded_fields:
  "losses (recorded c s l) = losses s @ [l]"
  "iter (recorded c s l) = iter s"
  "converged (recorded c s l) = converged s"
  "evaluations (recorded c s l) = Suc (evaluations s)"
  "steps (recorded c s l) = steps s"
  "printed (recorded c s l) = printed s"
  by (simp_all add: recorded_def)

lemma advanced_fields:
  "losses (advanced c s) = losses s"
  "iter (advanced c s) = iter s + 1"
  "converged (advanced c s) = converged s"
  "evaluations (advanced c s) = evaluations s"
  "steps (advanced c s) = Suc (steps s)"
  "printed (advanced c s) = printed s"
  "loss (advanced c s) = loss s"
  by (simp_all add: advanced_def)

lemma reached_losses:
  assumes "combined_loss c s = Inr l"
  shows "losses (reached (loop_body c s)) = losses s @ [l]"
  unfolding loop_body_recorded [OF assms]
  by (auto split: sum.splits bool.splits simp: recorded_fields advanced_fields progress_fields)

section \<open>The stopping criterion\<close>

lemma neg_index_trace:
  "k \<le> n \<Longrightarrow> neg_index (map L [0..<Suc n]) (Suc k) = Inr (L (n - k))"
proof -
  assume k: "k \<le> n"
  have "map L [0..<Suc n] ! (n - k) = L (0 + (n - k))"
    by (rule nth_map_upt) simp
  with k show ?thesis
    by (simp add: neg_index_def del: upt_Suc)
qed

lemma delta_loss_trace:
  assumes "1 \<le> n"
  shows "delta_loss (map L [0..<Suc n]) = Finite (L n - L (n - 1))"
proof -
  have a: "map L [0..<Suc n] ! n = L (0 + n)"
    by (rule nth_map_upt) simp
  have b: "map L [0..<Suc n] ! (n - 1) = L (0 + (n - 1))"
    by (rule nth_map_upt) simp
  from assms a b show ?thesis
    by (simp add: delta_loss_def del: upt_Suc)
qed

lemma stop_criterion_trace:
  assumes it: "iter s = int n" and ls: "losses s = map L [0..<Suc n]"
  shows "stop_criterion c s (delta_loss (losses s)) =
           (if 2 \<le> n \<and> (\<exists>t. tol c = Some t \<and> t < L n \<and> L n = 0)
            then Inl ZeroDenominator else Inr (criterion L (tol c) n))"
proof (cases "2 \<le> n")
  case False
  with it show ?thesis by (simp add: stop_criterion_def criterion_def)
next
  case big: True
  show ?thesis
  proof (cases "tol c")
    case None
    with it big show ?thesis by (simp add: stop_criterion_def criterion_def)
  next
    case (Some t)
    have i1: "neg_index (losses s) (Suc 0) = Inr (L n)"
      unfolding ls using neg_index_trace [of 0 n L] by simp
    have i2: "neg_index (losses s) 2 = Inr (L (n - 1))"
      unfolding ls using neg_index_trace [of 1 n L] big by (simp add: numeral_2_eq_2)
    have i3: "neg_index (losses s) 3 = Inr (L (n - 2))"
      unfolding ls using neg_index_trace [of 2 n L] big
      by (simp add: numeral_3_eq_3 numeral_2_eq_2)
    have d: "delta_loss (losses s) = Finite (L n - L (n - 1))"
      unfolding ls using delta_loss_trace [of n L] big by simp
    from it big have nl: "\<not> iter s < 2" by simp
    show ?thesis
      unfolding stop_criterion_def criterion_def
      by (simp add: nl Some i1 i2 i3 d and_then_def quotient_le_def big)
  qed
qed

text \<open>
  C1. Take the loop at the start of iteration \<open>n\<close>: the trace holds the losses
  \<open>L 0, ..., L (n - 1)\<close>, \<open>converged\<close> is not set, and the iteration computes the combined
  loss \<open>L n\<close>. Where the quotient is evaluated its denominator \<open>L n\<close> is not zero. Then the
  iteration sets \<open>converged\<close> and breaks if and only if the criterion holds at \<open>n\<close>:
  \<open>n \<ge> 2\<close>, a tolerance is supplied, the latest loss or the negative relative improvement
  is at most the tolerance, and \<open>L (n - 1) - L n < L (n - 2) - L (n - 1)\<close>.
\<close>

theorem converged_iff_criterion:
  assumes "iter s = int n" and "losses s = map L [0..<n]" and "\<not> converged s"
      and "combined_loss c s = Inr (L n)"
      and "\<forall>t. tol c = Some t \<and> t < L n \<longrightarrow> L n \<noteq> 0"
  shows "(\<exists>s'. loop_body c s = Inr (Break s') \<and> converged s') \<longleftrightarrow> criterion L (tol c) n"
proof -
  let ?r = "recorded c s (L n)"
  have it: "iter ?r = int n" using assms(1) by (simp add: recorded_fields)
  have ls: "losses ?r = map L [0..<Suc n]" using assms(2) by (simp add: recorded_fields)
  have sc: "stop_criterion c ?r (delta_loss (losses s @ [L n])) = Inr (criterion L (tol c) n)"
    using stop_criterion_trace [OF it ls, of c] assms(5)
    by (auto simp: recorded_fields)
  have nc: "\<not> converged ?r" using assms(3) by (simp add: recorded_fields)
  show ?thesis
    unfolding loop_body_recorded [OF assms(4)] sc
    using nc by (cases "criterion L (tol c) n") (auto split: sum.splits)
qed

theorem converged_iff_criterion_witness:
  "iter third_iteration = int 2 \<and>
   losses third_iteration = map (\<lambda>k. 4 / 2 ^ k) [0..<2] \<and>
   \<not> converged third_iteration \<and>
   combined_loss (halving_call plain_loss (Some 1) 10 1 False) third_iteration = Inr (4 / 2 ^ 2) \<and>
   criterion (\<lambda>k. 4 / 2 ^ k) (tol (halving_call plain_loss (Some 1) 10 1 False)) 2 \<and>
   (\<exists>s'. loop_body (halving_call plain_loss (Some 1) 10 1 False) third_iteration = Inr (Break s')
         \<and> converged s')"
proof -
  let ?c = "halving_call plain_loss (Some 1) 10 1 False"
  let ?L = "\<lambda>k::nat. (4::real) / 2 ^ k"
  have h1: "iter third_iteration = int 2" by (simp add: third_iteration_def)
  have h2: "losses third_iteration = map ?L [0..<2]"
    by (simp add: third_iteration_def numeral_2_eq_2)
  have h3: "\<not> converged third_iteration" by (simp add: third_iteration_def)
  have h4: "combined_loss ?c third_iteration = Inr (?L 2)"
    by (simp add: combined_loss_def halving_call_def third_iteration_def halving_def
          plain_loss_def as_sequence_def reduce_add_def)
  have h5: "\<forall>t. tol ?c = Some t \<and> t < ?L 2 \<longrightarrow> ?L 2 \<noteq> 0" by simp
  have cr: "criterion ?L (tol ?c) 2" by (simp add: criterion_def halving_call_def)
  from converged_iff_criterion [OF h1 h2 h3 h4 h5] cr
  have "\<exists>s'. loop_body ?c third_iteration = Inr (Break s') \<and> converged s'" by simp
  with h1 h2 h3 h4 cr show ?thesis by blast
qed

section \<open>The loop\<close>

lemma loop_break: "loop_body c s = Inr (Break s') \<Longrightarrow> optimize_loop c s = Some (Inr s')"
  by (subst optimize_loop.simps) simp

lemma loop_raise: "loop_body c s = Inl e \<Longrightarrow> optimize_loop c s = Some (Inl e)"
  by (subst optimize_loop.simps) simp

lemma loop_continue:
  "loop_body c s = Inr (Continue s') \<Longrightarrow> optimize_loop c s = optimize_loop c s'"
  by (subst optimize_loop.simps) simp

text \<open>
  Partial correctness: when the loop ends, it ends in an iteration started in a state that
  satisfies every invariant of the continuing iterations.
\<close>

lemma optimize_loop_leaves:
  assumes run: "optimize_loop c s = Some r"
      and start: "I s"
      and keep: "\<And>s s'. I s \<Longrightarrow> loop_body c s = Inr (Continue s') \<Longrightarrow> I s'"
  shows "\<exists>s0. I s0 \<and> leaves c s0 r"
proof -
  have "c' = c \<longrightarrow> I s \<longrightarrow> (\<exists>s0. I s0 \<and> leaves c s0 r)"
    if "optimize_loop c' s = Some r" for c'
    using that
  proof (induction c' s r rule: optimize_loop.raw_induct [rotated 1, consumes 1])
    case (1 loop c' s r)
    show ?case
    proof (intro impI)
      assume eq: "c' = c" and inv: "I s"
      show "\<exists>s0. I s0 \<and> leaves c s0 r"
      proof (cases "loop_body c s")
        case (Inl e)
        with 1(2) eq inv show ?thesis by (auto simp: leaves_def)
      next
        case (Inr f)
        show ?thesis
        proof (cases f)
          case (Break s')
          with Inr 1(2) eq inv show ?thesis by (auto simp: leaves_def)
        next
          case (Continue s')
          with Inr 1(2) eq have "loop c s' = Some r" by simp
          moreover from keep [OF inv] Inr Continue have "I s'" by simp
          ultimately show ?thesis using 1(1) [of c s' r] by simp
        qed
      qed
    qed
  qed
  with run start show ?thesis by blast
qed

text \<open>
  Termination: when every iteration before the budget continues and the iteration at the
  budget breaks, the loop started at or before the budget ends there.
\<close>

lemma loop_runs_to_budget:
  assumes cont: "\<And>s. I s \<Longrightarrow> iter s < max_iter c
                   \<Longrightarrow> \<exists>s'. loop_body c s = Inr (Continue s') \<and> I s' \<and> iter s' = iter s + 1"
      and brk: "\<And>s. I s \<Longrightarrow> iter s = max_iter c \<Longrightarrow> \<exists>r. loop_body c s = Inr (Break r) \<and> Q r"
      and "I s" and "iter s \<le> max_iter c"
  shows "\<exists>r. optimize_loop c s = Some (Inr r) \<and> Q r"
  using assms(3,4)
proof (induction "nat (max_iter c - iter s)" arbitrary: s)
  case 0
  then have "iter s = max_iter c" by simp
  from brk [OF "0.prems"(1) this] show ?case by (auto simp: loop_break)
next
  case (Suc k)
  then have lt: "iter s < max_iter c" by simp
  from cont [OF Suc.prems(1) lt] obtain s'
    where s': "loop_body c s = Inr (Continue s')" "I s'" "iter s' = iter s + 1" by blast
  from Suc.hyps(2) s'(3) have "k = nat (max_iter c - iter s')" by simp
  moreover from lt s'(3) have "iter s' \<le> max_iter c" by simp
  ultimately have "\<exists>r. optimize_loop c s' = Some (Inr r) \<and> Q r"
    using Suc.hyps(1) s'(2) by blast
  then show ?case by (simp add: loop_continue [OF s'(1)])
qed

lemma final_report_fields:
  "store (final_report c s) = store s" "losses (final_report c s) = losses s"
  "iter (final_report c s) = iter s" "converged (final_report c s) = converged s"
  "loss (final_report c s) = loss s" "evaluations (final_report c s) = evaluations s"
  "steps (final_report c s) = steps s"
  by (simp_all add: final_report_def)


lemma optimize_unfold:
  assumes "collect (as_list ta) [] \<noteq> []"
  shows "optimize opt ta lf tolerance budget freq vb st =
    (case optimize_loop
            \<lparr>tensors = as_list ta, loss_function = lf, tol = tolerance, max_iter = budget,
             print_freq = freq, verbose = vb, optimizer = opt,
             parameters = collect (as_list ta) []\<rparr> (initial st) of
       None \<Rightarrow> None
     | Some (Inl e) \<Rightarrow> Some (Inl e)
     | Some (Inr s) \<Rightarrow> Some (Inr (final_report
            \<lparr>tensors = as_list ta, loss_function = lf, tol = tolerance, max_iter = budget,
             print_freq = freq, verbose = vb, optimizer = opt,
             parameters = collect (as_list ta) []\<rparr> s)))"
  using assms by (simp add: optimize_def Let_def)

section \<open>The states of a run\<close>

text \<open>
  Every state in which an iteration of a run starts has \<open>converged\<close> unset and as many
  recorded losses, loss evaluations and optimizer steps as \<open>iter\<close> says; so it fits the
  hypotheses of the theorem on the stopping criterion, with the recorded losses as the
  trace. A run that ends, ends in an iteration started in such a state.
\<close>

lemma continue_fields:
  assumes "loop_body c s = Inr (Continue s')"
  shows "\<exists>l. combined_loss c s = Inr l \<and> losses s' = losses s @ [l] \<and>
             iter s' = iter s + 1 \<and> converged s' = converged s \<and>
             evaluations s' = Suc (evaluations s) \<and> steps s' = Suc (steps s)"
proof (cases "combined_loss c s")
  case (Inl e)
  from loop_body_raises [OF Inl] assms show ?thesis by auto
next
  case (Inr l)
  from assms [unfolded loop_body_recorded [OF Inr]] Inr show ?thesis
    by (auto split: sum.splits bool.splits if_splits
             simp: advanced_fields progress_fields recorded_fields)
qed

lemma iterates_invariant:
  assumes "iterates c (initial st) s"
  shows "\<not> converged s \<and> iter s = int (length (losses s)) \<and>
         evaluations s = length (losses s) \<and> steps s = length (losses s)"
proof -
  have "s0 = initial st \<longrightarrow>
          \<not> converged s \<and> iter s = int (length (losses s)) \<and>
          evaluations s = length (losses s) \<and> steps s = length (losses s)"
    if "iterates c s0 s" for s0
    using that
  proof (induction rule: iterates.induct)
    case (start s)
    show ?case by (simp add: initial_def)
  next
    case (continue s s' s'')
    from continue_fields [OF continue.hyps(2)] continue.IH show ?case by auto
  qed
  with assms show ?thesis by blast
qed

lemma iterates_fit_trace:
  assumes "iterates c (initial st) s"
  shows "\<not> converged s \<and> iter s = int (length (losses s)) \<and>
         losses s = map ((!) (losses s @ [l])) [0..<length (losses s)]"
proof -
  have "map ((!) (losses s @ [l])) [0..<length (losses s)] = losses s"
    by (rule nth_equalityI) (simp_all add: nth_append)
  with iterates_invariant [OF assms] show ?thesis by simp
qed

lemma optimize_loop_iterates:
  assumes "optimize_loop c s = Some r"
  shows "\<exists>s0. iterates c s s0 \<and> leaves c s0 r"
  by (rule optimize_loop_leaves [where I = "iterates c s", OF assms])
     (auto intro: iterates.intros)

section \<open>What an iteration can raise\<close>

lemma combined_loss_returned: "combined_loss c s = reduce_add (as_sequence (returned_loss c s))"
  by (simp add: combined_loss_def returned_loss_def)

lemma combined_loss_error: "combined_loss c s = Inl e \<Longrightarrow> e = TypeError"
  by (auto simp: combined_loss_def reduce_add_def split: list.splits)

lemma progress_error: "progress c s = Inl e \<Longrightarrow> e = ZeroDivisionError \<and> verbose c \<and> print_freq c = 0"
  by (auto simp: progress_def split: if_splits)

lemma progress_ok:
  assumes "verbose c \<longrightarrow> print_freq c \<noteq> 0"
  shows "\<exists>s'. progress c s = Inr s'"
  using assms by (simp add: progress_def)

lemma body_continues_or_breaks:
  assumes crit: "stop_criterion c (recorded c s l) (delta_loss (losses s @ [l])) = Inr False"
      and comb: "combined_loss c s = Inr l"
      and pr: "verbose c \<longrightarrow> print_freq c \<noteq> 0"
  shows "iter s = max_iter c \<Longrightarrow> loop_body c s = Inr (Break (recorded c s l))"
    and "iter s \<noteq> max_iter c \<Longrightarrow>
           \<exists>s'. loop_body c s = Inr (Continue s') \<and> iter s' = iter s + 1 \<and>
                converged s' = converged s \<and> losses s' = losses s @ [l] \<and>
                evaluations s' = Suc (evaluations s) \<and> steps s' = Suc (steps s)"
proof -
  show "iter s = max_iter c \<Longrightarrow> loop_body c s = Inr (Break (recorded c s l))"
    unfolding loop_body_recorded [OF comb] crit by simp
next
  assume ne: "iter s \<noteq> max_iter c"
  from progress_ok [OF pr] obtain s4 where s4: "progress c (recorded c s l) = Inr s4" by blast
  have "loop_body c s = Inr (Continue (advanced c s4))"
    unfolding loop_body_recorded [OF comb] crit using ne s4 by simp
  then show "\<exists>s'. loop_body c s = Inr (Continue s') \<and> iter s' = iter s + 1 \<and>
                converged s' = converged s \<and> losses s' = losses s @ [l] \<and>
                evaluations s' = Suc (evaluations s) \<and> steps s' = Suc (steps s)"
    by (simp add: advanced_fields progress_fields [OF s4] recorded_fields)
qed

section \<open>The recorded loss\<close>

text \<open>
  C6. In every iteration a scalar result becomes a sequence of one, and the value
  appended to the trace is the sum of the components of the returned sequence; for a
  result of two scalars it is their sum. (An empty sequence has no sum: \<open>reduce\<close> raises
  and nothing is appended, see \<open>loop_body_raises\<close>.)
\<close>

theorem recorded_loss_is_sum:
  "as_sequence (Scalar x) = [x] \<and>
   (as_sequence (returned_loss c s) \<noteq> []
      \<longrightarrow> losses (reached (loop_body c s))
            = losses s @ [sum_list (as_sequence (returned_loss c s))]) \<and>
   (returned_loss c s = Sequence [a, b]
      \<longrightarrow> losses (reached (loop_body c s)) = losses s @ [a + b])"
proof -
  have one: "as_sequence (Scalar x) = [x]" by (simp add: as_sequence_def)
  have gen: "losses (reached (loop_body c s))
               = losses s @ [sum_list (as_sequence (returned_loss c s))]"
    if "as_sequence (returned_loss c s) \<noteq> []"
  proof -
    from that have "combined_loss c s = Inr (sum_list (as_sequence (returned_loss c s)))"
      by (simp add: combined_loss_returned reduce_add_sum)
    then show ?thesis by (rule reached_losses)
  qed
  have two: "losses (reached (loop_body c s)) = losses s @ [a + b]"
    if "returned_loss c s = Sequence [a, b]"
    using gen that by (simp add: as_sequence_def)
  from one gen two show ?thesis by blast
qed

theorem recorded_loss_is_sum_witness:
  "as_sequence (returned_loss (halving_call two_term_loss None 5 1 False) third_iteration) \<noteq> [] \<and>
   returned_loss (halving_call two_term_loss None 5 1 False) third_iteration = Sequence [1, 1] \<and>
   losses (reached (loop_body (halving_call two_term_loss None 5 1 False) third_iteration))
     = [4, 2, 1 + 1]"
proof -
  let ?c = "halving_call two_term_loss None 5 1 False"
  have r: "returned_loss ?c third_iteration = Sequence [1, 1]"
    by (simp add: returned_loss_def halving_call_def halving_def two_term_loss_def
          third_iteration_def)
  have ls: "losses third_iteration = [4, 2]" by (simp add: third_iteration_def)
  from recorded_loss_is_sum [of 0 ?c third_iteration 1 1] r ls
  show ?thesis by (simp add: as_sequence_def)
qed

section \<open>The quotient\<close>

lemma stop_criterion_no_zero:
  assumes "tol c = Some t" and "0 \<le> t"
  shows "stop_criterion c s d \<noteq> Inl ZeroDenominator"
  using assms
  by (auto simp: stop_criterion_def and_then_def quotient_le_def neg_index_def
           split: sum.splits if_splits delta.splits)

lemma loop_body_no_zero:
  assumes "tol c = Some t" and "0 \<le> t"
  shows "loop_body c s \<noteq> Inl (ZeroDenominator, s')"
proof (cases "combined_loss c s")
  case (Inl e)
  from loop_body_raises [OF Inl] combined_loss_error [OF Inl] show ?thesis by auto
next
  case (Inr l)
  show ?thesis
    unfolding loop_body_recorded [OF Inr]
    using stop_criterion_no_zero [OF assms]
    by (auto split: sum.splits bool.splits dest: progress_error)
qed

text \<open>
  C10. With a tolerance \<open>t \<ge> 0\<close> no run of \<open>optimize\<close> evaluates the quotient with a
  zero denominator: the quotient is evaluated only after \<open>losses[-1] <= tol\<close> has
  failed, and then the latest loss is above \<open>t\<close>, hence not zero.
\<close>

theorem zero_denominator_unreachable:
  assumes "0 \<le> t"
  shows "optimize opt ta lf (Some t) budget freq vb st \<noteq> Some (Inl (ZeroDenominator, s')) \<and>
         (\<not> l \<le> t \<longrightarrow> t < l \<and> l \<noteq> 0 \<and> quotient_le d l t \<noteq> Inl ZeroDenominator)"
proof -
  let ?c = "\<lparr>tensors = as_list ta, loss_function = lf, tol = Some t, max_iter = budget,
             print_freq = freq, verbose = vb, optimizer = opt,
             parameters = collect (as_list ta) []\<rparr>"
  have t: "tol ?c = Some t" by simp
  have "optimize_loop ?c (initial st) \<noteq> Some (Inl (ZeroDenominator, s'))"
  proof
    assume "optimize_loop ?c (initial st) = Some (Inl (ZeroDenominator, s'))"
    from optimize_loop_leaves [where I = "\<lambda>s. True", OF this]
    obtain s0 where "leaves ?c s0 (Inl (ZeroDenominator, s'))" by blast
    then have "loop_body ?c s0 = Inl (ZeroDenominator, s')"
      by (auto simp: leaves_def split: sum.splits flow.splits)
    with loop_body_no_zero [OF t assms] show False by blast
  qed
  then have "optimize opt ta lf (Some t) budget freq vb st \<noteq> Some (Inl (ZeroDenominator, s'))"
    by (auto simp: optimize_def Let_def split: option.splits sum.splits)
  moreover from assms
  have "\<not> l \<le> t \<longrightarrow> t < l \<and> l \<noteq> 0 \<and> quotient_le d l t \<noteq> Inl ZeroDenominator"
    by (auto simp: quotient_le_def split: delta.splits)
  ultimately show ?thesis by blast
qed

theorem zero_denominator_unreachable_witness:
  "(0::real) \<le> 0 \<and>
   optimize halving (One small_net) shifted_loss (Some 0) 10 1 False 4
     = Some (Inr \<lparr>store = 1, losses = [3, 1, 0], iter = 2, converged = True, loss = [0],
                 evaluations = 3, steps = 2, printed = []\<rparr>) \<and>
   optimize halving (One small_net) shifted_loss (Some 0) 10 1 False 4
     \<noteq> Some (Inl (ZeroDenominator, initial 4)) \<and>
   \<not> (1 / 2 :: real) \<le> 0 \<and>
   quotient_le (Finite (- 1 / 2)) (1 / 2) 0 = Inr False"
proof -
  have run: "optimize halving (One small_net) shifted_loss (Some 0) 10 1 False 4
     = Some (Inr \<lparr>store = 1, losses = [3, 1, 0], iter = 2, converged = True, loss = [0],
                 evaluations = 3, steps = 2, printed = []\<rparr>)"
    by code_simp
  have q: "quotient_le (Finite (- 1 / 2)) (1 / 2) 0 = Inr False"
    by (simp add: quotient_le_def)
  have le: "(0::real) \<le> 0" by simp
  from zero_denominator_unreachable [OF le, of halving "One small_net" shifted_loss 10 1 False 4
      "initial 4" "1 / 2" "Finite (- 1 / 2)"] run q
  show ?thesis by simp
qed

text \<open>
  The bound on the tolerance is needed: with \<open>tol = -1\<close> and a loss that reaches zero in
  iteration 2 the first comparison fails and the quotient is evaluated with a zero
  denominator.
\<close>

lemma negative_tolerance_zero_denominator:
  "optimize halving (One small_net) shifted_loss (Some (- 1)) 10 1 False 4
     = Some (Inl (ZeroDenominator,
         \<lparr>store = 1, losses = [3, 1, 0], iter = 2, converged = False, loss = [0],
          evaluations = 3, steps = 2, printed = []\<rparr>))"
  by code_simp

section \<open>Runs without a tolerance\<close>

lemma stop_criterion_no_tol: "tol c = None \<Longrightarrow> stop_criterion c s d = Inr False"
  by (simp add: stop_criterion_def)

lemma body_no_tol:
  assumes "tol c = None" and "combined_loss c s = Inr l"
  shows "loop_body c s =
     (if iter s = max_iter c then Inr (Break (recorded c s l))
      else case progress c (recorded c s l) of
             Inl e \<Rightarrow> Inl (e, recorded c s l)
           | Inr s4 \<Rightarrow> Inr (Continue (advanced c s4)))"
  unfolding loop_body_recorded [OF assms(2)] stop_criterion_no_tol [OF assms(1)] by simp

lemma no_tol_keeps:
  assumes "tol c = None" and "\<not> converged s \<and> 0 \<le> iter s"
      and "loop_body c s = Inr (Continue s')"
  shows "\<not> converged s' \<and> 0 \<le> iter s'"
proof (cases "combined_loss c s")
  case (Inl e)
  from loop_body_raises [OF Inl] assms(3) show ?thesis by auto
next
  case (Inr l)
  from assms(3) [unfolded body_no_tol [OF assms(1) Inr]] assms(2)
  show ?thesis
    by (auto split: if_splits sum.splits
             simp: advanced_fields recorded_fields progress_fields)
qed

lemma no_tol_leaves:
  assumes "tol c = None" and "\<not> converged s \<and> 0 \<le> iter s" and "leaves c s r"
  shows "case r of Inl (e, s') \<Rightarrow> \<not> converged s'
                 | Inr s' \<Rightarrow> \<not> converged s' \<and> iter s' = max_iter c \<and> 0 \<le> iter s'"
proof (cases "combined_loss c s")
  case (Inl e)
  from loop_body_raises [OF Inl] assms(2,3) show ?thesis
    by (auto simp: leaves_def)
next
  case (Inr l)
  from assms(3) [unfolded leaves_def body_no_tol [OF assms(1) Inr]] assms(2)
  show ?thesis
    by (auto split: if_splits sum.splits simp: recorded_fields)
qed

text \<open>
  C5. With \<open>tol = None\<close> no run sets \<open>converged\<close>, whether it returns or raises, and a
  run that returns has left the loop at \<open>iter = max_iter\<close>. It does return when
  \<open>max_iter \<ge> 0\<close> and nothing raises on the way (a learnable parameter exists, the loss
  is never an empty sequence, \<open>print_freq\<close> is not zero when \<open>verbose\<close> is set).
\<close>

theorem no_tolerance_only_budget:
  "(\<forall>r. optimize opt ta lf None budget freq vb st = Some (Inr r)
        \<longrightarrow> \<not> converged r \<and> iter r = budget \<and> 0 \<le> budget) \<and>
   (\<forall>e s. optimize opt ta lf None budget freq vb st = Some (Inl (e, s)) \<longrightarrow> \<not> converged s) \<and>
   (0 \<le> budget \<and> collect (as_list ta) [] \<noteq> [] \<and>
    (\<forall>x. as_sequence (lf (as_list ta) x) \<noteq> []) \<and> (vb \<longrightarrow> freq \<noteq> 0)
      \<longrightarrow> (\<exists>r. optimize opt ta lf None budget freq vb st = Some (Inr r)))"
proof -
  let ?c = "\<lparr>tensors = as_list ta, loss_function = lf, tol = None, max_iter = budget,
             print_freq = freq, verbose = vb, optimizer = opt,
             parameters = collect (as_list ta) []\<rparr>"
  let ?I = "\<lambda>s::'a state. \<not> converged s \<and> 0 \<le> iter s"
  have nt: "tol ?c = None" by simp
  have start: "?I (initial st)" by (simp add: initial_def)
  have ends: "case r of Inl (e, s') \<Rightarrow> \<not> converged s'
                 | Inr s' \<Rightarrow> \<not> converged s' \<and> iter s' = budget \<and> 0 \<le> iter s'"
    if "optimize_loop ?c (initial st) = Some r" for r
  proof -
    from optimize_loop_leaves [where I = ?I, OF that start] no_tol_keeps [OF nt]
    obtain s0 where "?I s0" "leaves ?c s0 r" by blast
    from no_tol_leaves [OF nt this] show ?thesis by (auto split: sum.splits)
  qed
  have a: "\<not> converged r \<and> iter r = budget \<and> 0 \<le> budget"
    if "optimize opt ta lf None budget freq vb st = Some (Inr r)" for r
  proof (cases "collect (as_list ta) [] = []")
    case True
    with that show ?thesis by (simp add: optimize_def)
  next
    case False
    from that [unfolded optimize_unfold [OF False]]
    obtain r0 where "optimize_loop ?c (initial st) = Some (Inr r0)" "r = final_report ?c r0"
      by (auto split: option.splits sum.splits)
    with ends [of "Inr r0"] show ?thesis by (auto simp: final_report_fields)
  qed
  have b: "\<not> converged s"
    if "optimize opt ta lf None budget freq vb st = Some (Inl (e, s))" for e s
  proof (cases "collect (as_list ta) [] = []")
    case True
    with that show ?thesis by (auto simp: optimize_def initial_def)
  next
    case False
    from that [unfolded optimize_unfold [OF False]]
    have "optimize_loop ?c (initial st) = Some (Inl (e, s))"
      by (auto split: option.splits sum.splits)
    with ends [of "Inl (e, s)"] show ?thesis by simp
  qed
  have c: "\<exists>r. optimize opt ta lf None budget freq vb st = Some (Inr r)"
    if h: "0 \<le> budget \<and> collect (as_list ta) [] \<noteq> [] \<and>
        (\<forall>x. as_sequence (lf (as_list ta) x) \<noteq> []) \<and> (vb \<longrightarrow> freq \<noteq> 0)"
  proof -
    have comb: "\<exists>l. combined_loss ?c s = Inr l" for s
      using h by (simp add: combined_loss_def reduce_add_sum)
    have pr: "verbose ?c \<longrightarrow> print_freq ?c \<noteq> 0" using h by simp
    have "\<exists>r. optimize_loop ?c (initial st) = Some (Inr r) \<and> True"
    proof (rule loop_runs_to_budget [where I = "\<lambda>s. True"])
      fix s :: "'a state"
      assume "iter s < max_iter ?c"
      then have ne: "iter s \<noteq> max_iter ?c" by simp
      from comb obtain l where l: "combined_loss ?c s = Inr l" by blast
      from body_continues_or_breaks(2) [OF stop_criterion_no_tol [OF nt] l pr ne]
      show "\<exists>s'. loop_body ?c s = Inr (Continue s') \<and> True \<and> iter s' = iter s + 1"
        by blast
    next
      fix s :: "'a state"
      assume eq: "iter s = max_iter ?c"
      from comb obtain l where l: "combined_loss ?c s = Inr l" by blast
      from body_continues_or_breaks(1) [OF stop_criterion_no_tol [OF nt] l pr eq]
      show "\<exists>r. loop_body ?c s = Inr (Break r) \<and> True" by blast
    next
      show "iter (initial st) \<le> max_iter ?c" using h by (simp add: initial_def)
    qed simp
    then show ?thesis using h by (auto simp: optimize_unfold)
  qed
  from a b c show ?thesis by blast
qed

theorem no_tolerance_only_budget_witness:
  "(0::int) \<le> 2 \<and> collect (as_list (One small_net)) [] \<noteq> [] \<and>
   (\<forall>x. as_sequence (two_term_loss (as_list (One small_net)) x) \<noteq> []) \<and> (1::int) \<noteq> 0 \<and>
   optimize halving (One small_net) two_term_loss None 2 1 True 16
     = Some (Inr \<lparr>store = 4, losses = [17, 9, 5], iter = 2, converged = False, loss = [4, 1],
                 evaluations = 3, steps = 2,
                 printed = [Progress 0 [16, 1] (Some 17), Progress 1 [8, 1] (Some 9),
                            Final 2 [4, 1] (Some 5) False]\<rparr>) \<and>
   (\<exists>r. optimize halving (One small_net) two_term_loss None 2 1 True 16 = Some (Inr r) \<and>
        \<not> converged r \<and> iter r = 2)"
proof -
  have run: "optimize halving (One small_net) two_term_loss None 2 1 True 16
     = Some (Inr \<lparr>store = 4, losses = [17, 9, 5], iter = 2, converged = False, loss = [4, 1],
                 evaluations = 3, steps = 2,
                 printed = [Progress 0 [16, 1] (Some 17), Progress 1 [8, 1] (Some 9),
                            Final 2 [4, 1] (Some 5) False]\<rparr>)"
    by code_simp
  have h: "collect (as_list (One small_net)) [] \<noteq> []"
    "\<forall>x. as_sequence (two_term_loss (as_list (One small_net)) x) \<noteq> []"
    by (simp_all add: as_list_def small_net_def two_term_loss_def as_sequence_def)
  from no_tolerance_only_budget [of halving "One small_net" two_term_loss 2 1 True 16] h
  have "\<exists>r. optimize halving (One small_net) two_term_loss None 2 1 True 16 = Some (Inr r) \<and>
        \<not> converged r \<and> iter r = 2"
    by auto
  with run h show ?thesis by simp
qed

section \<open>A constant loss\<close>

lemma criterion_constant: "\<not> criterion (\<lambda>k. c0) tolerance n"
  by (simp add: criterion_def split: option.splits)

lemma stop_criterion_constant:
  assumes "0 \<le> iter s" and "losses s = replicate (nat (iter s)) c0"
      and "c0 \<noteq> 0"
  shows "stop_criterion c (recorded c s c0) (delta_loss (losses s @ [c0])) = Inr False"
proof -
  let ?n = "nat (iter s)"
  have it: "iter (recorded c s c0) = int ?n" using assms(1) by (simp add: recorded_fields)
  have "replicate ?n c0 @ [c0] = map (\<lambda>k. c0) [0..<Suc ?n]"
    by (simp add: map_replicate_const replicate_append_same)
  then have ls: "losses (recorded c s c0) = map (\<lambda>k. c0) [0..<Suc ?n]"
    using assms(2) by (simp add: recorded_fields)
  from stop_criterion_trace [OF it ls, of c] assms(3)
  show ?thesis by (simp add: criterion_constant recorded_fields)
qed

lemma steady_initial: "steady c0 (initial st)"
  by (simp add: steady_def initial_def)

lemma steady_iteration:
  assumes comb: "combined_loss c s = Inr c0" and nz: "c0 \<noteq> 0"
      and above: "\<forall>t. tol c = Some t \<longrightarrow> t < c0"
      and pr: "verbose c \<longrightarrow> print_freq c \<noteq> 0"
      and st: "steady c0 s"
  shows "iter s \<noteq> max_iter c \<Longrightarrow>
           \<exists>s'. loop_body c s = Inr (Continue s') \<and> steady c0 s' \<and> iter s' = iter s + 1"
    and "iter s = max_iter c \<Longrightarrow>
           loop_body c s = Inr (Break (recorded c s c0)) \<and> \<not> converged (recorded c s c0) \<and>
           iter (recorded c s c0) = max_iter c \<and>
           evaluations (recorded c s c0) = nat (max_iter c) + 1 \<and>
           steps (recorded c s c0) = nat (max_iter c) \<and>
           losses (recorded c s c0) = replicate (nat (max_iter c) + 1) c0"
proof -
  from st have crit:
    "stop_criterion c (recorded c s c0) (delta_loss (losses s @ [c0])) = Inr False"
    by (intro stop_criterion_constant nz) (simp_all add: steady_def)
  {
    assume ne: "iter s \<noteq> max_iter c"
    from body_continues_or_breaks(2) [OF crit comb pr ne]
    obtain s' where s': "loop_body c s = Inr (Continue s')" "iter s' = iter s + 1"
      "converged s' = converged s" "losses s' = losses s @ [c0]"
      "evaluations s' = Suc (evaluations s)" "steps s' = Suc (steps s)" by blast
    from st have "nat (iter s + 1) = Suc (nat (iter s))" unfolding steady_def by linarith
    with st s' have "steady c0 s'" by (simp add: steady_def replicate_append_same)
    with s' show "\<exists>s'. loop_body c s = Inr (Continue s') \<and> steady c0 s' \<and> iter s' = iter s + 1"
      by blast
  next
    assume eq: "iter s = max_iter c"
    from body_continues_or_breaks(1) [OF crit comb pr eq]
    have "loop_body c s = Inr (Break (recorded c s c0))" .
    with st eq show "loop_body c s = Inr (Break (recorded c s c0)) \<and>
           \<not> converged (recorded c s c0) \<and>
           iter (recorded c s c0) = max_iter c \<and>
           evaluations (recorded c s c0) = nat (max_iter c) + 1 \<and>
           steps (recorded c s c0) = nat (max_iter c) \<and>
           losses (recorded c s c0) = replicate (nat (max_iter c) + 1) c0"
      by (simp add: steady_def recorded_fields replicate_append_same)
  }
qed





text \<open>
  The bound on the budget is needed: \<open>iter\<close> counts up from 0 and is compared with
  \<open>max_iter\<close> by equality, so with a negative \<open>max_iter\<close> the same call never leaves the
  loop.
\<close>

lemma negative_budget_never_returns:
  assumes const: "\<forall>x. reduce_add (as_sequence (lf (as_list ta) x)) = Inr c0"
      and nz: "c0 \<noteq> 0"
      and above: "\<forall>t. tolerance = Some t \<longrightarrow> t < c0"
      and budget: "budget < 0"
      and params: "collect (as_list ta) [] \<noteq> []"
      and freq: "vb \<longrightarrow> freq \<noteq> 0"
  shows "optimize opt ta lf tolerance budget freq vb st = None"
proof -
  let ?c = "\<lparr>tensors = as_list ta, loss_function = lf, tol = tolerance, max_iter = budget,
             print_freq = freq, verbose = vb, optimizer = opt,
             parameters = collect (as_list ta) []\<rparr>"
  have comb: "combined_loss ?c s = Inr c0" for s
    using const by (simp add: combined_loss_def)
  have ab: "\<forall>t. tol ?c = Some t \<longrightarrow> t < c0" using above by simp
  have pr: "verbose ?c \<longrightarrow> print_freq ?c \<noteq> 0" using freq by simp
  have go: "\<exists>s'. loop_body ?c s = Inr (Continue s') \<and> steady c0 s' \<and> iter s' = iter s + 1"
    if "steady c0 s" for s
  proof -
    from that budget have "iter s \<noteq> max_iter ?c" by (simp add: steady_def)
    from steady_iteration(1) [OF comb nz ab pr that this] show ?thesis .
  qed
  have "optimize_loop ?c (initial st) = None"
  proof (rule ccontr)
    assume "optimize_loop ?c (initial st) \<noteq> None"
    then obtain r where "optimize_loop ?c (initial st) = Some r" by blast
    from optimize_loop_leaves [where I = "steady c0", OF this steady_initial] go
    obtain s0 where "steady c0 s0" "leaves ?c s0 r" by fastforce
    with go [of s0] show False by (auto simp: leaves_def)
  qed
  then show ?thesis by (simp add: optimize_unfold [OF params])
qed

section \<open>Progress reporting\<close>

lemma quiet_fields:
  "tensors (quiet c) = tensors c" "loss_function (quiet c) = loss_function c"
  "tol (quiet c) = tol c" "max_iter (quiet c) = max_iter c"
  "optimizer (quiet c) = optimizer c" "parameters (quiet c) = parameters c"
  "verbose (quiet c) = False"
  by (simp_all add: quiet_def)

lemma combined_loss_quiet: "combined_loss (quiet c) (unprinted s) = combined_loss c s"
  by (simp add: combined_loss_def quiet_fields unprinted_def)

lemma recorded_quiet: "recorded (quiet c) (unprinted s) l = unprinted (recorded c s l)"
  by (simp add: recorded_def quiet_fields unprinted_def)

lemma advanced_quiet: "advanced (quiet c) (unprinted s) = unprinted (advanced c s)"
  by (simp add: advanced_def quiet_fields unprinted_def)

lemma stop_criterion_quiet:
  "stop_criterion (quiet c) (unprinted s) d = stop_criterion c s d"
  by (simp add: stop_criterion_def quiet_fields unprinted_def cong: option.case_cong if_cong)

lemma progress_quiet: "progress (quiet c) s = Inr s"
  by (simp add: progress_def quiet_fields)

lemma progress_unprinted:
  assumes "verbose c \<longrightarrow> print_freq c \<noteq> 0"
  shows "\<exists>s'. progress c s = Inr s' \<and> unprinted s' = unprinted s"
  using assms by (simp add: progress_def unprinted_def)

lemma loop_body_quiet:
  assumes "verbose c \<longrightarrow> print_freq c \<noteq> 0"
  shows "loop_body (quiet c) (unprinted s) = silent_step (loop_body c s)"
proof (cases "combined_loss c s")
  case (Inl e)
  then show ?thesis
    by (simp add: loop_body_def combined_loss_def Let_def quiet_fields unprinted_def)
next
  case (Inr l)
  from Inr have q: "combined_loss (quiet c) (unprinted s) = Inr l"
    by (simp add: combined_loss_quiet)
  from progress_unprinted [OF assms] obtain s4
    where s4: "progress c (recorded c s l) = Inr s4" "unprinted s4 = unprinted (recorded c s l)"
    by blast
  have adv: "unprinted (advanced c s4) = unprinted (advanced c (recorded c s l))"
    using s4(2) by (simp add: advanced_quiet [symmetric])
  have it: "iter (unprinted s) = iter s" by (simp add: unprinted_def)
  have ls: "losses (unprinted s) = losses s" by (simp add: unprinted_def)
  have cv: "unprinted (recorded c s l)\<lparr>converged := True\<rparr>
              = unprinted ((recorded c s l)\<lparr>converged := True\<rparr>)"
    by (simp add: unprinted_def)
  show ?thesis
    unfolding loop_body_recorded [OF Inr] loop_body_recorded [OF q]
      recorded_quiet stop_criterion_quiet progress_quiet advanced_quiet quiet_fields it ls
    by (auto split: sum.splits bool.splits simp: s4 adv cv advanced_quiet)
qed

lemma loop_quiet_forward:
  assumes pr: "verbose c \<longrightarrow> print_freq c \<noteq> 0"
      and run: "optimize_loop c s = Some r"
  shows "optimize_loop (quiet c) (unprinted s) = Some (silent r)"
proof -
  have "c' = c \<longrightarrow> optimize_loop (quiet c) (unprinted s) = Some (silent r)"
    if "optimize_loop c' s = Some r" for c'
    using that
  proof (induction c' s r rule: optimize_loop.raw_induct [rotated 1, consumes 1])
    case (1 loop c' s r)
    show ?case
    proof
      assume eq: "c' = c"
      show "optimize_loop (quiet c) (unprinted s) = Some (silent r)"
      proof (cases "loop_body c s")
        case (Inl e)
        with 1(2) eq have r: "r = Inl e" by simp
        obtain x s' where e: "e = (x, s')" by (cases e)
        from Inl e have "loop_body (quiet c) (unprinted s) = Inl (x, unprinted s')"
          by (simp add: loop_body_quiet [OF pr])
        then show ?thesis by (simp add: loop_raise r e)
      next
        case (Inr f)
        show ?thesis
        proof (cases f)
          case (Break s')
          with Inr 1(2) eq have r: "r = Inr s'" by simp
          from Inr Break have "loop_body (quiet c) (unprinted s) = Inr (Break (unprinted s'))"
            by (simp add: loop_body_quiet [OF pr])
          then show ?thesis by (simp add: loop_break r)
        next
          case (Continue s')
          with Inr 1(2) eq have "loop c s' = Some r" by simp
          from 1(1) [OF this] eq
          have ih: "optimize_loop (quiet c) (unprinted s') = Some (silent r)" by simp
          from Inr Continue
          have "loop_body (quiet c) (unprinted s) = Inr (Continue (unprinted s'))"
            by (simp add: loop_body_quiet [OF pr])
          then show ?thesis by (simp add: loop_continue ih)
        qed
      qed
    qed
  qed
  with run show ?thesis by blast
qed

lemma loop_quiet_backward:
  assumes pr: "verbose c \<longrightarrow> print_freq c \<noteq> 0"
      and run: "optimize_loop (quiet c) (unprinted s) = Some r'"
  shows "\<exists>r. optimize_loop c s = Some r"
proof -
  have "c' = quiet c \<longrightarrow> (\<forall>s. u = unprinted s \<longrightarrow> (\<exists>r. optimize_loop c s = Some r))"
    if "optimize_loop c' u = Some r'" for c' u
    using that
  proof (induction c' u r' rule: optimize_loop.raw_induct [rotated 1, consumes 1])
    case (1 loop c' u r')
    show ?case
    proof (intro impI allI)
      fix s
      assume eq: "c' = quiet c" and u: "u = unprinted s"
      show "\<exists>r. optimize_loop c s = Some r"
      proof (cases "loop_body c s")
        case (Inl e)
        then show ?thesis by (simp add: loop_raise)
      next
        case (Inr f)
        show ?thesis
        proof (cases f)
          case (Break s')
          with Inr show ?thesis by (simp add: loop_break)
        next
          case (Continue s')
          with Inr have "loop_body (quiet c) (unprinted s) = Inr (Continue (unprinted s'))"
            by (simp add: loop_body_quiet [OF pr])
          with 1(2) eq u have "loop (quiet c) (unprinted s') = Some r'" by simp
          from 1(1) [OF this] have "\<exists>r. optimize_loop c s' = Some r" by simp
          with Inr Continue show ?thesis by (simp add: loop_continue)
        qed
      qed
    qed
  qed
  with run show ?thesis by blast
qed

lemma loop_quiet:
  assumes "verbose c \<longrightarrow> print_freq c \<noteq> 0"
  shows "map_option silent (optimize_loop c s) = optimize_loop (quiet c) (unprinted s)"
proof (cases "optimize_loop c s")
  case None
  with loop_quiet_backward [OF assms, of s] show ?thesis
    by (cases "optimize_loop (quiet c) (unprinted s)") auto
next
  case (Some r)
  with loop_quiet_forward [OF assms Some] show ?thesis by simp
qed

lemma unprinted_final_report: "unprinted (final_report c s) = unprinted s"
  by (simp add: final_report_def unprinted_def)

lemma unprinted_initial: "unprinted (initial st) = initial st"
  by (simp add: initial_def unprinted_def)

lemma optimize_silent:
  assumes "vb \<longrightarrow> freq \<noteq> 0"
  shows "map_option silent (optimize opt ta lf tolerance budget freq vb st)
           = optimize opt ta lf tolerance budget 1 False st"
proof (cases "collect (as_list ta) [] = []")
  case True
  then show ?thesis by (simp add: optimize_def unprinted_initial)
next
  case False
  let ?c = "\<lparr>tensors = as_list ta, loss_function = lf, tol = tolerance, max_iter = budget,
             print_freq = freq, verbose = vb, optimizer = opt,
             parameters = collect (as_list ta) []\<rparr>"
  let ?q = "\<lparr>tensors = as_list ta, loss_function = lf, tol = tolerance, max_iter = budget,
             print_freq = 1, verbose = False, optimizer = opt,
             parameters = collect (as_list ta) []\<rparr>"
  have q: "quiet ?c = ?q" by (simp add: quiet_def)
  have pr: "verbose ?c \<longrightarrow> print_freq ?c \<noteq> 0" using assms by simp
  have sim: "map_option silent (optimize_loop ?c (initial st)) = optimize_loop ?q (initial st)"
    using loop_quiet [OF pr, of "initial st"] by (simp add: q unprinted_initial)
  have fin: "final_report ?q s = s" for s by (simp add: final_report_def)
  show ?thesis
  proof (cases "optimize_loop ?c (initial st)")
    case None
    with sim show ?thesis by (simp add: optimize_unfold [OF False])
  next
    case (Some r)
    with sim have qr: "optimize_loop ?q (initial st) = Some (silent r)" by simp
    show ?thesis
    proof (cases r)
      case (Inl e)
      obtain x s' where "e = (x, s')" by (cases e)
      with Inl Some qr show ?thesis by (simp add: optimize_unfold [OF False])
    next
      case (Inr s')
      with Some qr show ?thesis
        by (simp add: optimize_unfold [OF False] unprinted_final_report fin)
    qed
  qed
qed

text \<open>
  C8, as the specification states it: two runs that differ only in \<open>verbose\<close> or
  \<open>print_freq\<close> have the same trace, status, iterations and updates. The progress test
  \<open>iter % print_freq\<close> is evaluated whenever \<open>verbose\<close> is set, and with
  \<open>print_freq = 0\<close> it raises: the verbose run ends in iteration 0 with a
  ZeroDivisionError, before any optimizer step, while the same call with
  \<open>verbose = False\<close> runs to the budget.
\<close>

theorem zero_print_freq_raises:
  "optimize halving (One small_net) two_term_loss None 2 0 True 16
     = Some (Inl (ZeroDivisionError,
         \<lparr>store = 16, losses = [17], iter = 0, converged = False, loss = [16, 1],
          evaluations = 1, steps = 0, printed = []\<rparr>)) \<and>
   optimize halving (One small_net) two_term_loss None 2 0 False 16
     = Some (Inr \<lparr>store = 4, losses = [17, 9, 5], iter = 2, converged = False, loss = [4, 1],
                 evaluations = 3, steps = 2, printed = []\<rparr>)"
  by code_simp

text \<open>
  C8, amended. Two runs that differ only in \<open>verbose\<close> or \<open>print_freq\<close>, neither of
  them verbose with \<open>print_freq = 0\<close>, have the same outcome up to the printed output:
  both return, both raise the same error or both run forever, with the same loss trace,
  \<open>converged\<close> flag, iteration count, store, and numbers of evaluations and steps.
\<close>

theorem reporting_is_observational:
  assumes "vb1 \<longrightarrow> freq1 \<noteq> 0" and "vb2 \<longrightarrow> freq2 \<noteq> 0"
  shows "map_option silent (optimize opt ta lf tolerance budget freq1 vb1 st)
           = map_option silent (optimize opt ta lf tolerance budget freq2 vb2 st)"
  by (simp add: optimize_silent [OF assms(1)] optimize_silent [OF assms(2)])

theorem reporting_is_observational_witness:
  "(1::int) \<noteq> 0 \<and>
   optimize halving (One small_net) two_term_loss None 2 1 True 16
     \<noteq> optimize halving (One small_net) two_term_loss None 2 0 False 16 \<and>
   map_option silent (optimize halving (One small_net) two_term_loss None 2 1 True 16)
     = map_option silent (optimize halving (One small_net) two_term_loss None 2 0 False 16) \<and>
   map_option silent (optimize halving (One small_net) two_term_loss None 2 1 True 16)
     = Some (Inr \<lparr>store = 4, losses = [17, 9, 5], iter = 2, converged = False, loss = [4, 1],
                 evaluations = 3, steps = 2, printed = []\<rparr>)"
proof -
  have a: "optimize halving (One small_net) two_term_loss None 2 1 True 16
     = Some (Inr \<lparr>store = 4, losses = [17, 9, 5], iter = 2, converged = False, loss = [4, 1],
                 evaluations = 3, steps = 2,
                 printed = [Progress 0 [16, 1] (Some 17), Progress 1 [8, 1] (Some 9),
                            Final 2 [4, 1] (Some 5) False]\<rparr>)"
    by code_simp
  have b: "optimize halving (One small_net) two_term_loss None 2 0 False 16
     = Some (Inr \<lparr>store = 4, losses = [17, 9, 5], iter = 2, converged = False, loss = [4, 1],
                 evaluations = 3, steps = 2, printed = []\<rparr>)"
    by code_simp
  have h1: "True \<longrightarrow> (1::int) \<noteq> 0" and h2: "False \<longrightarrow> (0::int) \<noteq> 0" by simp_all
  from reporting_is_observational [OF h1 h2, of halving "One small_net" two_term_loss None 2 16]
  have eq: "map_option silent (optimize halving (One small_net) two_term_loss None 2 1 True 16)
     = map_option silent (optimize halving (One small_net) two_term_loss None 2 0 False 16)" .
  have ne: "optimize halving (One small_net) two_term_loss None 2 1 True 16
     \<noteq> optimize halving (One small_net) two_term_loss None 2 0 False 16"
    unfolding a b by simp
  have c: "map_option silent (optimize halving (One small_net) two_term_loss None 2 0 False 16)
     = Some (Inr \<lparr>store = 4, losses = [17, 9, 5], iter = 2, converged = False, loss = [4, 1],
                 evaluations = 3, steps = 2, printed = []\<rparr>)"
    unfolding b by (simp add: unprinted_def)
  have one: "(1::int) \<noteq> 0" by simp
  from one ne eq trans [OF eq c] show ?thesis by blast
qed

end
